theory Spec2Isabelle
  imports Main "HOL-Library.Sublist"
begin

section \<open>testmux: an order-checking HTTP request multiplexer\<close>

text \<open>
  The Go package \<^verbatim>\<open>testmux\<close> (file \<^verbatim>\<open>testmux.go\<close>) keeps a list of registered
  routes, a cursor \<^verbatim>\<open>index\<close> and a list of diagnostic strings. This theory embeds its
  operations as functions on an explicit \<open>Router\<close> state.

  Modelling conventions.
  \<^item> A Go \<^verbatim>\<open>string\<close> is a \<open>string\<close> (a list of bytes).
  \<^item> The cursor is a Go \<^verbatim>\<open>int\<close>. It starts at 0 and grows by one per dispatch, and it
    never exceeds the combined length of the two lists the router holds in memory (lemma
    \<open>index_bounded\<close> below), so it cannot overflow; it is modelled as an \<open>int\<close>.
  \<^item> The two collaborators the router talks to, \<^verbatim>\<open>http.ResponseWriter\<close> and
    \<^verbatim>\<open>*testing.T\<close>, are interfaces implemented outside the package. Each is modelled by
    the sequence of calls made on it so far.
  \<^item> A handler is a non-nil Go function that acts on the response writer only and
    returns; it is modelled as a total function from the writer and the request to the
    writer. The reporter handed to \<^verbatim>\<open>AssertVisited\<close> is a non-nil \<^verbatim>\<open>*testing.T\<close>.
\<close>

subsection \<open>Collaborators\<close>

record URL =
  Path :: string

record Request =
  Method :: string
  URL :: URL

datatype writer_call = CallWriteHeader int | CallWrite string

type_synonym ResponseWriter = "writer_call list"

definition WriteHeader :: "int \<Rightarrow> ResponseWriter \<Rightarrow> ResponseWriter" where
  "WriteHeader code w = w @ [CallWriteHeader code]"

definition Write :: "string \<Rightarrow> ResponseWriter \<Rightarrow> ResponseWriter" where
  "Write bytes w = w @ [CallWrite bytes]"

text \<open>\<^verbatim>\<open>fmt.Fprintln(w, s)\<close> formats \<open>s\<close> followed by a newline and hands the result to
  the writer in one \<^verbatim>\<open>Write\<close>.\<close>

definition Fprintln :: "ResponseWriter \<Rightarrow> string \<Rightarrow> ResponseWriter" where
  "Fprintln w s = Write (s @ [CHR 0x0A]) w"

definition StatusNotFound :: int where
  "StatusNotFound = 404"

text \<open>Modelled from the spec: \<^verbatim>\<open>http.NotFound\<close> belongs to Go's \<^verbatim>\<open>net/http\<close>, not to
  this package. The specification says that it writes a "not found" response, whose status
  code is HTTP 404; the library sends the text \<^verbatim>\<open>404 page not found\<close> as its body. The
  headers it sets are left out.\<close>

definition NotFound :: "ResponseWriter \<Rightarrow> Request \<Rightarrow> ResponseWriter" where
  "NotFound w req = Fprintln (WriteHeader StatusNotFound w) ''404 page not found''"

text \<open>What a recorder that started fresh (\<^verbatim>\<open>httptest.NewRecorder()\<close>, as in the package's
  tests) reports after a sequence of calls: the status of the first \<^verbatim>\<open>WriteHeader\<close>, or 200
  when the body was written first or nothing was written; and the bytes written.\<close>

definition NewRecorder :: ResponseWriter where
  "NewRecorder = []"

fun Code :: "ResponseWriter \<Rightarrow> int" where
  "Code [] = 200"
| "Code (CallWriteHeader code # _) = code"
| "Code (CallWrite _ # _) = 200"

fun Body :: "ResponseWriter \<Rightarrow> string" where
  "Body [] = []"
| "Body (CallWriteHeader _ # cs) = Body cs"
| "Body (CallWrite bytes # cs) = bytes @ Body cs"

text \<open>\<^verbatim>\<open>*testing.T\<close>: the messages handed to \<^verbatim>\<open>t.Error\<close>, in order. A test has failed
  when there is at least one.\<close>

type_synonym T = "string list"

definition Error :: "T \<Rightarrow> string \<Rightarrow> T" where
  "Error t msg = t @ [msg]"

definition Failed :: "T \<Rightarrow> bool" where
  "Failed t = (t \<noteq> [])"

text \<open>\<^verbatim>\<open>fmt.Sprintf\<close>, restricted to the one verb the package uses: each \<^verbatim>\<open>%s\<close> of the
  format is replaced by the next argument, and every other byte is copied. The package
  always passes as many arguments as the format has verbs.\<close>

fun Sprintf :: "string \<Rightarrow> string list \<Rightarrow> string" where
  "Sprintf [] a = []"
| "Sprintf [c] a = [c]"
| "Sprintf (c # d # format) a =
     (if c = CHR ''%'' \<and> d = CHR ''s''
      then (case a of [] \<Rightarrow> ''%!s(MISSING)'' @ Sprintf format []
                    | x # xs \<Rightarrow> x @ Sprintf format xs)
      else c # Sprintf (d # format) a)"

subsection \<open>The data model\<close>

type_synonym handler = "ResponseWriter \<Rightarrow> Request \<Rightarrow> ResponseWriter"

text \<open>The struct \<^verbatim>\<open>route\<close>; its field \<^verbatim>\<open>method\<close> is called \<open>method_name\<close> here.\<close>

record route =
  method_name :: string
  path :: string
  handler :: handler
  visited :: bool

record Router =
  routes :: "route list"
  index :: int
  errors :: "string list"

text \<open>The zero value \<^verbatim>\<open>Router{}\<close>.\<close>

definition Router0 :: Router where
  "Router0 = \<lparr>routes = [], index = 0, errors = []\<rparr>"

subsection \<open>Operations\<close>

definition RegisterFunc :: "Router \<Rightarrow> string \<Rightarrow> string \<Rightarrow> handler \<Rightarrow> Router" where
  "RegisterFunc r m p h =
     (let rte = \<lparr>method_name = m, path = p, handler = h, visited = False\<rparr>
      in r\<lparr>routes := routes r @ [rte]\<rparr>)"

definition RegisterResp :: "Router \<Rightarrow> string \<Rightarrow> string \<Rightarrow> int \<Rightarrow> string \<Rightarrow> Router" where
  "RegisterResp r m p status body =
     (let rte = \<lparr>method_name = m, path = p,
                 handler = (\<lambda>w req. Fprintln (WriteHeader status w) body),
                 visited = False\<rparr>
      in r\<lparr>routes := routes r @ [rte]\<rparr>)"

definition addErrorf :: "Router \<Rightarrow> string \<Rightarrow> string list \<Rightarrow> Router" where
  "addErrorf r format a = r\<lparr>errors := errors r @ [Sprintf format a]\<rparr>"

text \<open>The loop of \<^verbatim>\<open>match\<close>: \<open>i\<close> is the position of the head of the remaining routes.
  The returned position stands for the pointer \<^verbatim>\<open>&r.routes[i]\<close>.\<close>

fun match_loop :: "route list \<Rightarrow> nat \<Rightarrow> int \<Rightarrow> string \<Rightarrow> string \<Rightarrow> nat option \<times> bool" where
  "match_loop [] i idx m p = (None, False)"
| "match_loop (rte # rest) i idx m p =
     (if \<not> visited rte \<and> method_name rte = m \<and> path rte = p
      then (Some i, int i = idx)
      else match_loop rest (Suc i) idx m p)"

definition match :: "Router \<Rightarrow> string \<Rightarrow> string \<Rightarrow> nat option \<times> bool" where
  "match r m p = match_loop (routes r) 0 (index r) m p"

definition execute :: "route \<Rightarrow> ResponseWriter \<Rightarrow> Request \<Rightarrow> route \<times> ResponseWriter" where
  "execute rte w req = (let w' = handler rte w req in (rte\<lparr>visited := True\<rparr>, w'))"

definition ServeHTTP :: "Router \<Rightarrow> ResponseWriter \<Rightarrow> Request \<Rightarrow> Router \<times> ResponseWriter" where
  "ServeHTTP r w req =
     (case match r (Method req) (Path (URL req)) of
        (Some i, ordered) \<Rightarrow>
          (let (rte', w') = execute (routes r ! i) w req;
               r1 = r\<lparr>routes := (routes r)[i := rte']\<rparr>;
               r2 = (if \<not> ordered
                     then addErrorf r1 ''Request out of order: %s %s'' [Method req, Path (URL req)]
                     else r1)
           in (r2\<lparr>index := index r2 + 1\<rparr>, w'))
      | (None, ordered) \<Rightarrow>
          (let w' = NotFound w req;
               r1 = addErrorf r ''Unexpected request: %s %s'' [Method req, Path (URL req)]
           in (r1\<lparr>index := index r1 + 1\<rparr>, w')))"

text \<open>The first loop of \<^verbatim>\<open>AssertVisited\<close> ranges over the routes and appends to the
  errors; the second hands every error to \<^verbatim>\<open>t.Error\<close>.\<close>

fun unvisited_loop :: "route list \<Rightarrow> Router \<Rightarrow> Router" where
  "unvisited_loop [] r = r"
| "unvisited_loop (rte # rest) r =
     unvisited_loop rest
       (if \<not> visited rte
        then addErrorf r ''Unvisited route: %s %s'' [method_name rte, path rte]
        else r)"

fun report_loop :: "string list \<Rightarrow> T \<Rightarrow> T" where
  "report_loop [] t = t"
| "report_loop (err # rest) t = report_loop rest (Error t err)"

definition AssertVisited :: "Router \<Rightarrow> T \<Rightarrow> Router \<times> T \<times> bool" where
  "AssertVisited r t =
     (let r' = unvisited_loop (routes r) r;
          t' = report_loop (errors r') t
      in (r', t', length (errors r') = 0))"

subsection \<open>Vocabulary for the properties\<close>

text \<open>A route answers a request for \<open>(m, p)\<close> when it has not been visited and carries
  that method and path; \<open>first_match rs m p j\<close> says that position \<open>j\<close> is the first such
  route of \<open>rs\<close>.\<close>

definition matches :: "route \<Rightarrow> string \<Rightarrow> string \<Rightarrow> bool" where
  "matches rte m p = (\<not> visited rte \<and> method_name rte = m \<and> path rte = p)"

definition first_match :: "route list \<Rightarrow> string \<Rightarrow> string \<Rightarrow> nat \<Rightarrow> bool" where
  "first_match rs m p j =
     (j < length rs \<and> matches (rs ! j) m p \<and> (\<forall>l<j. \<not> matches (rs ! l) m p))"

definition unvisited_msg :: "route \<Rightarrow> string" where
  "unvisited_msg rte = ''Unvisited route: '' @ method_name rte @ '' '' @ path rte"

definition route_key :: "route \<Rightarrow> string \<times> string" where
  "route_key rte = (method_name rte, path rte)"

text \<open>Among routes with the same method and path, an earlier one is visited whenever a
  later one is.\<close>

definition fifo_ordered :: "route list \<Rightarrow> bool" where
  "fifo_ordered rs =
     (\<forall>j<length rs. \<forall>i<j. route_key (rs ! i) = route_key (rs ! j) \<and> visited (rs ! j)
        \<longrightarrow> visited (rs ! i))"

text \<open>A registration is a call of one of the two registering methods.\<close>

datatype registration =
    Func string string handler
  | Resp string string int string

fun register :: "Router \<Rightarrow> registration \<Rightarrow> Router" where
  "register r (Func m p h) = RegisterFunc r m p h"
| "register r (Resp m p status body) = RegisterResp r m p status body"

fun reg_key :: "registration \<Rightarrow> string \<times> string" where
  "reg_key (Func m p h) = (m, p)"
| "reg_key (Resp m p status body) = (m, p)"

definition req_key :: "Request \<Rightarrow> string \<times> string" where
  "req_key req = (Method req, Path (URL req))"

definition register_all :: "Router \<Rightarrow> registration list \<Rightarrow> Router" where
  "register_all r regs = foldl register r regs"

text \<open>A sequence of dispatches, each with its own writer; the routers are threaded
  through and the writers are returned in order.\<close>

fun serve_all :: "Router \<Rightarrow> (ResponseWriter \<times> Request) list \<Rightarrow> Router \<times> ResponseWriter list" where
  "serve_all r [] = (r, [])"
| "serve_all r ((w, req) # ds) =
     (let (r1, w1) = ServeHTTP r w req;
          (r2, ws) = serve_all r1 ds
      in (r2, w1 # ws))"

text \<open>Any call of an exported method of the router, and a run of such calls.\<close>

datatype op =
    DoRegisterFunc string string handler
  | DoRegisterResp string string int string
  | DoServeHTTP ResponseWriter Request
  | DoAssertVisited T

fun step :: "Router \<Rightarrow> op \<Rightarrow> Router" where
  "step r (DoRegisterFunc m p h) = RegisterFunc r m p h"
| "step r (DoRegisterResp m p status body) = RegisterResp r m p status body"
| "step r (DoServeHTTP w req) = fst (ServeHTTP r w req)"
| "step r (DoAssertVisited t) = fst (AssertVisited r t)"

definition run :: "Router \<Rightarrow> op list \<Rightarrow> Router" where
  "run r ops = foldl step r ops"

fun is_dispatch :: "op \<Rightarrow> bool" where
  "is_dispatch (DoServeHTTP w req) = True"
| "is_dispatch _ = False"

text \<open>The requests and routers of the package's own tests.\<close>

definition request :: "string \<Rightarrow> string \<Rightarrow> Request" where
  "request m p = \<lparr>Method = m, URL = \<lparr>Path = p\<rparr>\<rparr>"

definition router_success :: Router where
  "router_success =
     RegisterResp (RegisterResp (RegisterResp Router0
       ''GET'' ''/foo'' 200 []) ''GET'' ''/bar'' 201 []) ''PUT'' ''/foo'' 202 []"

definition router_unexpected :: Router where
  "router_unexpected =
     RegisterResp (RegisterResp Router0 ''GET'' ''/foo'' 200 []) ''GET'' ''/bar'' 201 []"

definition router_out_of_order :: Router where
  "router_out_of_order =
     RegisterResp (RegisterResp (RegisterResp Router0
       ''GET'' ''/foo'' 200 []) ''PUT'' ''/foo'' 202 []) ''GET'' ''/bar'' 201 []"

definition three_requests :: "(ResponseWriter \<times> Request) list" where
  "three_requests =
     [(NewRecorder, request ''GET'' ''/foo''),
      (NewRecorder, request ''GET'' ''/bar''),
      (NewRecorder, request ''PUT'' ''/foo'')]"

definition router_duplicates :: Router where
  "router_duplicates =
     RegisterResp (RegisterResp (RegisterResp Router0
       ''GET'' ''/foo'' 200 ''first'') ''GET'' ''/bar'' 201 []) ''GET'' ''/foo'' 202 ''second''"

section \<open>Properties\<close>

subsection \<open>Formatting\<close>

lemma Sprintf_unvisited:
  "Sprintf ''Unvisited route: %s %s'' [a, b] = ''Unvisited route: '' @ a @ '' '' @ b"
  by simp

lemma Sprintf_unexpected:
  "Sprintf ''Unexpected request: %s %s'' [a, b] = ''Unexpected request: '' @ a @ '' '' @ b"
  by simp

lemma Sprintf_out_of_order:
  "Sprintf ''Request out of order: %s %s'' [a, b] = ''Request out of order: '' @ a @ '' '' @ b"
  by simp

subsection \<open>Matching\<close>

lemma match_loop_none:
  "(\<forall>rte\<in>set rs. \<not> matches rte m p) \<Longrightarrow> match_loop rs i idx m p = (None, False)"
  by (induction rs arbitrary: i) (auto simp: matches_def)

lemma match_loop_first:
  "first_match rs m p j \<Longrightarrow> match_loop rs i idx m p = (Some (i + j), int (i + j) = idx)"
proof (induction rs arbitrary: i j)
  case Nil
  then show ?case by (simp add: first_match_def)
next
  case (Cons rte rest)
  show ?case
  proof (cases j)
    case 0
    with Cons.prems show ?thesis by (simp add: first_match_def matches_def)
  next
    case (Suc k)
    with Cons.prems have head: "\<not> matches rte m p"
      by (auto simp: first_match_def)
    from Suc Cons.prems have "first_match rest m p k"
      by (fastforce simp: first_match_def)
    then have "match_loop rest (Suc i) idx m p = (Some (Suc i + k), int (Suc i + k) = idx)"
      by (rule Cons.IH)
    with head Suc show ?thesis by (simp add: matches_def)
  qed
qed

lemma first_match_exists:
  assumes "\<exists>rte\<in>set rs. matches rte m p"
  shows "\<exists>j. first_match rs m p j"
proof -
  from assms obtain k where k: "k < length rs \<and> matches (rs ! k) m p"
    by (auto simp: in_set_conv_nth)
  define j where "j = (LEAST k. k < length rs \<and> matches (rs ! k) m p)"
  have j: "j < length rs \<and> matches (rs ! j) m p"
    unfolding j_def using k by (rule LeastI)
  have "\<not> matches (rs ! l) m p" if "l < j" for l
  proof
    assume "matches (rs ! l) m p"
    moreover from that j have "l < length rs" by simp
    ultimately show False
      using that not_less_Least unfolding j_def by blast
  qed
  with j show ?thesis by (auto simp: first_match_def)
qed

lemma first_match_unique:
  "first_match rs m p j \<Longrightarrow> first_match rs m p k \<Longrightarrow> j = k"
  by (metis first_match_def linorder_neqE_nat)

lemma match_first: "first_match (routes r) m p j \<Longrightarrow> match r m p = (Some j, int j = index r)"
  using match_loop_first [of "routes r" m p j 0 "index r"] by (simp add: match_def)

lemma match_none: "\<forall>rte\<in>set (routes r). \<not> matches rte m p \<Longrightarrow> match r m p = (None, False)"
  by (simp add: match_def match_loop_none)

subsection \<open>The two branches of a dispatch\<close>

lemma ServeHTTP_matched:
  assumes "first_match (routes r) (Method req) (Path (URL req)) j"
  shows "ServeHTTP r w req =
           (\<lparr>routes = (routes r)[j := (routes r ! j)\<lparr>visited := True\<rparr>],
             index = index r + 1,
             errors = (if int j = index r then errors r
                       else errors r @
                         [''Request out of order: '' @ Method req @ '' '' @ Path (URL req)])\<rparr>,
            handler (routes r ! j) w req)"
  using match_first [OF assms]
  by (simp add: ServeHTTP_def execute_def addErrorf_def Let_def)

lemma ServeHTTP_unmatched:
  assumes "\<forall>rte\<in>set (routes r). \<not> matches rte (Method req) (Path (URL req))"
  shows "ServeHTTP r w req =
           (\<lparr>routes = routes r, index = index r + 1,
             errors = errors r @
               [''Unexpected request: '' @ Method req @ '' '' @ Path (URL req)]\<rparr>,
            w @ [CallWriteHeader 404, CallWrite (''404 page not found'' @ [CHR 0x0A])])"
  using match_none [OF assms]
  by (simp add: ServeHTTP_def addErrorf_def Let_def NotFound_def Fprintln_def WriteHeader_def
      Write_def StatusNotFound_def)

subsection \<open>The two loops of the verification\<close>

lemma unvisited_loop_eq:
  "unvisited_loop rs r =
     r\<lparr>errors := errors r @ map unvisited_msg (filter (\<lambda>rte. \<not> visited rte) rs)\<rparr>"
  by (induction rs arbitrary: r) (simp_all add: addErrorf_def unvisited_msg_def)

lemma report_loop_eq: "report_loop es t = t @ es"
  by (induction es arbitrary: t) (simp_all add: Error_def)

lemma AssertVisited_eq:
  "AssertVisited r t =
     (r\<lparr>errors := errors r @ map unvisited_msg (filter (\<lambda>rte. \<not> visited rte) (routes r))\<rparr>,
      t @ errors r @ map unvisited_msg (filter (\<lambda>rte. \<not> visited rte) (routes r)),
      errors r = [] \<and> (\<forall>rte\<in>set (routes r). visited rte))"
  by (auto simp: AssertVisited_def unvisited_loop_eq report_loop_eq Let_def filter_empty_conv)

subsection \<open>The routers of the tests, written out\<close>

lemma router_unexpected_eq:
  "router_unexpected =
    \<lparr>routes =
      [\<lparr>method_name = ''GET'', path = ''/foo'',
        handler = (\<lambda>w req. Fprintln (WriteHeader 200 w) []), visited = False\<rparr>,
       \<lparr>method_name = ''GET'', path = ''/bar'',
        handler = (\<lambda>w req. Fprintln (WriteHeader 201 w) []), visited = False\<rparr>],
     index = 0, errors = []\<rparr>"
  by (simp add: router_unexpected_def RegisterResp_def Router0_def)

lemma router_out_of_order_eq:
  "router_out_of_order =
    \<lparr>routes =
      [\<lparr>method_name = ''GET'', path = ''/foo'',
        handler = (\<lambda>w req. Fprintln (WriteHeader 200 w) []), visited = False\<rparr>,
       \<lparr>method_name = ''PUT'', path = ''/foo'',
        handler = (\<lambda>w req. Fprintln (WriteHeader 202 w) []), visited = False\<rparr>,
       \<lparr>method_name = ''GET'', path = ''/bar'',
        handler = (\<lambda>w req. Fprintln (WriteHeader 201 w) []), visited = False\<rparr>],
     index = 0, errors = []\<rparr>"
  by (simp add: router_out_of_order_def RegisterResp_def Router0_def)

lemma router_success_eq:
  "router_success =
    \<lparr>routes =
      [\<lparr>method_name = ''GET'', path = ''/foo'',
        handler = (\<lambda>w req. Fprintln (WriteHeader 200 w) []), visited = False\<rparr>,
       \<lparr>method_name = ''GET'', path = ''/bar'',
        handler = (\<lambda>w req. Fprintln (WriteHeader 201 w) []), visited = False\<rparr>,
       \<lparr>method_name = ''PUT'', path = ''/foo'',
        handler = (\<lambda>w req. Fprintln (WriteHeader 202 w) []), visited = False\<rparr>],
     index = 0, errors = []\<rparr>"
  by (simp add: router_success_def RegisterResp_def Router0_def)

lemma serve_out_of_order:
  "serve_all router_out_of_order three_requests =
    (\<lparr>routes =
      [\<lparr>method_name = ''GET'', path = ''/foo'',
        handler = (\<lambda>w req. Fprintln (WriteHeader 200 w) []), visited = True\<rparr>,
       \<lparr>method_name = ''PUT'', path = ''/foo'',
        handler = (\<lambda>w req. Fprintln (WriteHeader 202 w) []), visited = True\<rparr>,
       \<lparr>method_name = ''GET'', path = ''/bar'',
        handler = (\<lambda>w req. Fprintln (WriteHeader 201 w) []), visited = True\<rparr>],
     index = 3,
     errors = [''Request out of order: GET /bar'', ''Request out of order: PUT /foo'']\<rparr>,
     [[CallWriteHeader 200, CallWrite [CHR 0x0A]],
      [CallWriteHeader 201, CallWrite [CHR 0x0A]],
      [CallWriteHeader 202, CallWrite [CHR 0x0A]]])"
  by (simp add: router_out_of_order_eq three_requests_def request_def ServeHTTP_def match_def
      execute_def addErrorf_def NewRecorder_def Fprintln_def WriteHeader_def Write_def)

lemma serve_success:
  "serve_all router_success three_requests =
    (\<lparr>routes =
      [\<lparr>method_name = ''GET'', path = ''/foo'',
        handler = (\<lambda>w req. Fprintln (WriteHeader 200 w) []), visited = True\<rparr>,
       \<lparr>method_name = ''GET'', path = ''/bar'',
        handler = (\<lambda>w req. Fprintln (WriteHeader 201 w) []), visited = True\<rparr>,
       \<lparr>method_name = ''PUT'', path = ''/foo'',
        handler = (\<lambda>w req. Fprintln (WriteHeader 202 w) []), visited = True\<rparr>],
     index = 3,
     errors = []\<rparr>,
     [[CallWriteHeader 200, CallWrite [CHR 0x0A]],
      [CallWriteHeader 201, CallWrite [CHR 0x0A]],
      [CallWriteHeader 202, CallWrite [CHR 0x0A]]])"
  by (simp add: router_success_eq three_requests_def request_def ServeHTTP_def match_def
      execute_def addErrorf_def NewRecorder_def Fprintln_def WriteHeader_def Write_def)

subsection \<open>Verification\<close>

text \<open>
  Claim C2. \<^verbatim>\<open>AssertVisited\<close> appends one diagnostic
  \<^verbatim>\<open>Unvisited route: {method} {path}\<close> for each route that is still unvisited, in
  the order of the registry, and leaves the routes and the cursor alone. It returns true
  exactly when the diagnostics are empty after these appends, which is the case exactly when
  there was no diagnostic before the call and no unvisited route. Every diagnostic is handed
  to the reporter, in order.
\<close>

theorem AssertVisited_reports_unvisited:
  "errors (fst (AssertVisited r t)) =
     errors r @ map (\<lambda>rte. ''Unvisited route: '' @ method_name rte @ '' '' @ path rte)
                  (filter (\<lambda>rte. \<not> visited rte) (routes r))
   \<and> snd (snd (AssertVisited r t)) = (errors (fst (AssertVisited r t)) = [])
   \<and> snd (snd (AssertVisited r t)) =
       (errors r = [] \<and> filter (\<lambda>rte. \<not> visited rte) (routes r) = [])
   \<and> fst (snd (AssertVisited r t)) = t @ errors (fst (AssertVisited r t))
   \<and> routes (fst (AssertVisited r t)) = routes r
   \<and> index (fst (AssertVisited r t)) = index r"
  by (simp add: AssertVisited_eq filter_empty_conv) (simp add: unvisited_msg_def [abs_def])

text \<open>
  Claim C8. \<^verbatim>\<open>AssertVisited\<close> is not idempotent. When some route is still unvisited, the
  first call appends the unvisited-route diagnostics \<open>U\<close> (among them the one of that
  route), and a second call appends all of \<open>U\<close> once more; both calls return false.
\<close>

theorem AssertVisited_twice_duplicates:
  assumes "rte \<in> set (routes r)" and "\<not> visited rte"
  shows "let U = map (\<lambda>rte. ''Unvisited route: '' @ method_name rte @ '' '' @ path rte)
                   (filter (\<lambda>rte. \<not> visited rte) (routes r));
             (r1, t1, ok1) = AssertVisited r t;
             (r2, t2, ok2) = AssertVisited r1 t1
         in (''Unvisited route: '' @ method_name rte @ '' '' @ path rte) \<in> set U
            \<and> errors r1 = errors r @ U
            \<and> errors r2 = errors r @ U @ U
            \<and> errors r2 \<noteq> errors r1
            \<and> \<not> ok1 \<and> \<not> ok2"
  using assms
  by (auto simp: AssertVisited_eq Let_def unvisited_msg_def [abs_def] filter_empty_conv)

theorem AssertVisited_twice_duplicates_witness:
  "\<lparr>method_name = ''GET'', path = ''/foo'',
     handler = (\<lambda>w req. Fprintln (WriteHeader 200 w) []), visited = False\<rparr>
      \<in> set (routes (RegisterResp Router0 ''GET'' ''/foo'' 200 []))
   \<and> errors (fst (AssertVisited (RegisterResp Router0 ''GET'' ''/foo'' 200 []) [])) =
       [''Unvisited route: GET /foo'']
   \<and> errors (fst (AssertVisited
        (fst (AssertVisited (RegisterResp Router0 ''GET'' ''/foo'' 200 []) []))
        (fst (snd (AssertVisited (RegisterResp Router0 ''GET'' ''/foo'' 200 []) []))))) =
       [''Unvisited route: GET /foo'', ''Unvisited route: GET /foo'']"
proof -
  let ?rte = "\<lparr>method_name = ''GET'', path = ''/foo'',
               handler = (\<lambda>w req. Fprintln (WriteHeader 200 w) []), visited = False\<rparr>"
  let ?r = "RegisterResp Router0 ''GET'' ''/foo'' 200 []"
  have h1: "?rte \<in> set (routes ?r)"
    by (simp add: RegisterResp_def Router0_def)
  have h2: "\<not> visited ?rte" by simp
  have e: "errors ?r = []" "routes ?r = [?rte]"
    by (simp_all add: RegisterResp_def Router0_def)
  show ?thesis
    using h1 AssertVisited_twice_duplicates [OF h1 h2, of "[]"]
    by (simp add: Let_def e split: prod.splits)
qed

text \<open>
  Claim C10. When a call of \<^verbatim>\<open>AssertVisited\<close> returns true, it has changed neither the
  router nor the reporter, and a second call right after it returns true again and changes
  nothing either.
\<close>

theorem AssertVisited_success_idempotent:
  assumes "AssertVisited r t = (r1, t1, True)"
  shows "AssertVisited r1 t1 = (r1, t1, True) \<and> r1 = r \<and> t1 = t"
  using assms by (auto simp: AssertVisited_eq filter_empty_conv)

theorem AssertVisited_success_idempotent_witness:
  "AssertVisited (fst (serve_all router_success three_requests)) [] =
     (fst (serve_all router_success three_requests), [], True)
   \<and> AssertVisited (fst (AssertVisited (fst (serve_all router_success three_requests)) []))
       (fst (snd (AssertVisited (fst (serve_all router_success three_requests)) []))) =
     (fst (serve_all router_success three_requests), [], True)"
proof -
  have h: "AssertVisited (fst (serve_all router_success three_requests)) [] =
     (fst (serve_all router_success three_requests), [], True)"
    by (simp add: serve_success AssertVisited_eq)
  show ?thesis
    using h AssertVisited_success_idempotent [OF h] by simp
qed

subsection \<open>Dispatch\<close>

text \<open>
  Claim C3. When no unvisited route carries the method and path of the request, the
  dispatch hands the writer to \<^verbatim>\<open>http.NotFound\<close>, which writes the status 404 (so a fresh
  recorder reports 404), appends exactly the one diagnostic
  \<^verbatim>\<open>Unexpected request: {method} {path}\<close>, leaves the routes as they are and advances
  the cursor. The dispatch returns normally: \<open>ServeHTTP\<close> has no failing branch.
\<close>

theorem ServeHTTP_unexpected:
  assumes "\<forall>rte\<in>set (routes r).
             visited rte \<or> method_name rte \<noteq> Method req \<or> path rte \<noteq> Path (URL req)"
  shows "snd (ServeHTTP r w req) =
           w @ [CallWriteHeader 404, CallWrite (''404 page not found'' @ [CHR 0x0A])]
    \<and> Code (snd (ServeHTTP r NewRecorder req)) = 404
    \<and> errors (fst (ServeHTTP r w req)) =
        errors r @ [''Unexpected request: '' @ Method req @ '' '' @ Path (URL req)]
    \<and> routes (fst (ServeHTTP r w req)) = routes r
    \<and> index (fst (ServeHTTP r w req)) = index r + 1"
proof -
  from assms have "\<forall>rte\<in>set (routes r). \<not> matches rte (Method req) (Path (URL req))"
    by (auto simp: matches_def)
  then show ?thesis
    by (simp add: ServeHTTP_unmatched NewRecorder_def)
qed

theorem ServeHTTP_unexpected_witness:
  "list_all (\<lambda>rte. \<not> matches rte ''PUT'' ''/foo'') (routes router_unexpected)
   \<and> length (routes router_unexpected) = 2
   \<and> snd (ServeHTTP router_unexpected NewRecorder (request ''PUT'' ''/foo'')) =
       [CallWriteHeader 404, CallWrite (''404 page not found'' @ [CHR 0x0A])]
   \<and> errors (fst (ServeHTTP router_unexpected NewRecorder (request ''PUT'' ''/foo''))) =
       [''Unexpected request: PUT /foo'']"
proof -
  have h: "\<forall>rte\<in>set (routes router_unexpected).
      visited rte \<or> method_name rte \<noteq> Method (request ''PUT'' ''/foo'')
        \<or> path rte \<noteq> Path (URL (request ''PUT'' ''/foo''))"
    by (simp add: router_unexpected_eq request_def)
  show ?thesis
    using ServeHTTP_unexpected [OF h, of NewRecorder]
    by (simp add: router_unexpected_eq NewRecorder_def request_def matches_def)
qed

text \<open>
  Claim C4. When the first unvisited route with the method and path of the request sits at
  a position \<open>j\<close> other than the cursor, the dispatch appends exactly the one diagnostic
  \<^verbatim>\<open>Request out of order: {method} {path}\<close>; the writer is the one the handler of that
  route produces (not the 404 response), the route is marked visited and the cursor
  advances.
\<close>

theorem ServeHTTP_out_of_order:
  assumes "first_match (routes r) (Method req) (Path (URL req)) j"
    and "int j \<noteq> index r"
  shows "errors (fst (ServeHTTP r w req)) =
           errors r @ [''Request out of order: '' @ Method req @ '' '' @ Path (URL req)]
    \<and> snd (ServeHTTP r w req) = handler (routes r ! j) w req
    \<and> routes (fst (ServeHTTP r w req)) = (routes r)[j := (routes r ! j)\<lparr>visited := True\<rparr>]
    \<and> visited (routes (fst (ServeHTTP r w req)) ! j)
    \<and> index (fst (ServeHTTP r w req)) = index r + 1"
  using assms by (simp add: ServeHTTP_matched first_match_def)

theorem ServeHTTP_out_of_order_witness:
  "first_match (routes router_out_of_order) (Method (request ''GET'' ''/bar''))
      (Path (URL (request ''GET'' ''/bar''))) 2
   \<and> int 2 \<noteq> index router_out_of_order
   \<and> errors (fst (ServeHTTP router_out_of_order NewRecorder (request ''GET'' ''/bar''))) =
       [''Request out of order: GET /bar'']
   \<and> Code (snd (ServeHTTP router_out_of_order NewRecorder (request ''GET'' ''/bar''))) = 201
   \<and> visited (routes (fst (ServeHTTP router_out_of_order NewRecorder
        (request ''GET'' ''/bar''))) ! 2)"
proof -
  have h1: "first_match (routes router_out_of_order) (Method (request ''GET'' ''/bar''))
      (Path (URL (request ''GET'' ''/bar''))) 2"
    by (simp add: router_out_of_order_eq first_match_def matches_def request_def less_Suc_eq
        numeral_2_eq_2)
  have h2: "int 2 \<noteq> index router_out_of_order"
    by (simp add: router_out_of_order_eq)
  show ?thesis
    using h1 h2 ServeHTTP_out_of_order [OF h1 h2, of NewRecorder]
    by (simp add: router_out_of_order_eq NewRecorder_def request_def Fprintln_def
        WriteHeader_def Write_def)
qed

text \<open>
  Claim C5, as amended. In the scenario of the out-of-order test (register GET /foo with
  200, PUT /foo with 202, GET /bar with 201, then dispatch GET /foo, GET /bar, PUT /foo on
  fresh recorders) the three responses have the statuses 200, 201 and 202, and the
  diagnostics are recorded in the order of the dispatches: first the one for GET /bar, then
  the one for PUT /foo.
\<close>

theorem scenario_out_of_order:
  "map Code (snd (serve_all router_out_of_order three_requests)) = [200, 201, 202]
   \<and> errors (fst (serve_all router_out_of_order three_requests)) =
       [''Request out of order: GET /bar'', ''Request out of order: PUT /foo'']"
  by (simp add: serve_out_of_order)

text \<open>The claim as it is written lists the two diagnostics the other way round; that does
  not hold.\<close>

theorem scenario_out_of_order_not_as_listed:
  "\<not> (map Code (snd (serve_all router_out_of_order three_requests)) = [200, 201, 202]
      \<and> errors (fst (serve_all router_out_of_order three_requests)) =
          [''Request out of order: PUT /foo'', ''Request out of order: GET /bar''])"
  by (simp add: serve_out_of_order)

subsection \<open>Registration\<close>

text \<open>
  Claim C9. For every status code and body, \<^verbatim>\<open>RegisterResp\<close> appends one unvisited route
  with the given method and path whose handler, on any writer, first sets the status to
  that code and then writes the body followed by one newline, in a single write. On a fresh
  recorder the response therefore has that status and that body.
\<close>

theorem RegisterResp_handler:
  "let r' = RegisterResp r m p status body; rte = last (routes r')
   in butlast (routes r') = routes r \<and> index r' = index r \<and> errors r' = errors r
      \<and> method_name rte = m \<and> path rte = p \<and> \<not> visited rte
      \<and> handler rte w req = w @ [CallWriteHeader status, CallWrite (body @ [CHR 0x0A])]
      \<and> Code (handler rte NewRecorder req) = status
      \<and> Body (handler rte NewRecorder req) = body @ [CHR 0x0A]"
  by (simp add: RegisterResp_def Let_def Fprintln_def WriteHeader_def Write_def NewRecorder_def)

subsection \<open>Runs of calls\<close>

lemma ServeHTTP_cases:
  obtains (unmatched) "\<forall>rte\<in>set (routes r). \<not> matches rte m p"
        | (matched) j where "first_match (routes r) m p j"
  using first_match_exists by blast

lemma ServeHTTP_index: "index (fst (ServeHTTP r w req)) = index r + 1"
  by (cases r "Method req" "Path (URL req)" rule: ServeHTTP_cases)
     (simp_all add: ServeHTTP_matched ServeHTTP_unmatched)

lemma ServeHTTP_length: "length (routes (fst (ServeHTTP r w req))) = length (routes r)"
  by (cases r "Method req" "Path (URL req)" rule: ServeHTTP_cases)
     (simp_all add: ServeHTTP_matched ServeHTTP_unmatched)

lemma ServeHTTP_visited:
  "i < length (routes r) \<Longrightarrow> visited (routes r ! i)
     \<Longrightarrow> visited (routes (fst (ServeHTTP r w req)) ! i)"
  by (cases r "Method req" "Path (URL req)" rule: ServeHTTP_cases)
     (auto simp: ServeHTTP_matched ServeHTTP_unmatched nth_list_update first_match_def)

lemma ServeHTTP_errors: "prefix (errors r) (errors (fst (ServeHTTP r w req)))"
  by (cases r "Method req" "Path (URL req)" rule: ServeHTTP_cases)
     (simp_all add: ServeHTTP_matched ServeHTTP_unmatched)

lemma step_index: "index (step r x) = index r + (if is_dispatch x then 1 else 0)"
  by (cases x) (simp_all add: ServeHTTP_index RegisterFunc_def RegisterResp_def AssertVisited_eq)

lemma step_length: "length (routes r) \<le> length (routes (step r x))"
  by (cases x) (simp_all add: ServeHTTP_length RegisterFunc_def RegisterResp_def AssertVisited_eq)

lemma step_visited:
  "i < length (routes r) \<Longrightarrow> visited (routes r ! i) \<Longrightarrow> visited (routes (step r x) ! i)"
  by (cases x)
     (simp_all add: ServeHTTP_visited RegisterFunc_def RegisterResp_def AssertVisited_eq nth_append)

lemma step_errors: "prefix (errors r) (errors (step r x))"
  by (cases x) (simp_all add: ServeHTTP_errors RegisterFunc_def RegisterResp_def AssertVisited_eq)

lemma run_Cons: "run r (x # xs) = run (step r x) xs"
  by (simp add: run_def)

lemma run_index: "index (run r xs) = index r + int (length (filter is_dispatch xs))"
  by (induction xs arbitrary: r) (simp_all add: run_Cons step_index, simp add: run_def)

lemma run_length: "length (routes r) \<le> length (routes (run r xs))"
proof (induction xs arbitrary: r)
  case Nil
  show ?case by (simp add: run_def)
next
  case (Cons x xs)
  have "length (routes r) \<le> length (routes (step r x))" by (rule step_length)
  also have "\<dots> \<le> length (routes (run (step r x) xs))" by (rule Cons.IH)
  finally show ?case by (simp add: run_Cons)
qed

lemma run_visited:
  "i < length (routes r) \<Longrightarrow> visited (routes r ! i) \<Longrightarrow> visited (routes (run r xs) ! i)"
proof (induction xs arbitrary: r)
  case Nil
  then show ?case by (simp add: run_def)
next
  case (Cons x xs)
  from Cons.prems have "i < length (routes (step r x))"
    using step_length [of r x] by simp
  moreover from Cons.prems have "visited (routes (step r x) ! i)"
    by (rule step_visited)
  ultimately have "visited (routes (run (step r x) xs) ! i)"
    by (rule Cons.IH)
  then show ?case by (simp add: run_Cons)
qed

lemma run_errors: "prefix (errors r) (errors (run r xs))"
proof (induction xs arbitrary: r)
  case Nil
  show ?case by (simp add: run_def)
next
  case (Cons x xs)
  have "prefix (errors r) (errors (step r x))" by (rule step_errors)
  also have "prefix \<dots> (errors (run (step r x) xs))" by (rule Cons.IH)
  finally show ?case by (simp add: run_Cons)
qed

text \<open>
  Claim C7. Every call of \<^verbatim>\<open>ServeHTTP\<close> advances the cursor by exactly one, whether or not
  a route matched. Over any run of calls of the exported methods, from any router: the
  cursor has advanced by the number of dispatches in the run (so it never decreases and is
  never reset), no route disappears, a route that was visited is still visited, and the
  diagnostics recorded before the run are an unchanged prefix of those after it.
\<close>

theorem router_invariants:
  "index (fst (ServeHTTP r w req)) = index r + 1
   \<and> index (run r xs) = index r + int (length (filter is_dispatch xs))
   \<and> index r \<le> index (run r xs)
   \<and> length (routes r) \<le> length (routes (run r xs))
   \<and> (\<forall>i<length (routes r). visited (routes r ! i) \<longrightarrow> visited (routes (run r xs) ! i))
   \<and> prefix (errors r) (errors (run r xs))"
  by (simp add: ServeHTTP_index run_index run_length run_visited run_errors)

theorem router_invariants_witness:
  "visited (routes (fst (serve_all router_out_of_order three_requests)) ! 0)
   \<and> visited (routes (run (fst (serve_all router_out_of_order three_requests))
        [DoServeHTTP NewRecorder (request ''GET'' ''/foo''),
         DoRegisterResp ''GET'' ''/baz'' 200 [],
         DoAssertVisited []]) ! 0)
   \<and> index (fst (serve_all router_out_of_order three_requests)) = 3
   \<and> index (run (fst (serve_all router_out_of_order three_requests))
        [DoServeHTTP NewRecorder (request ''GET'' ''/foo''),
         DoRegisterResp ''GET'' ''/baz'' 200 [],
         DoAssertVisited []]) = 4
   \<and> errors (fst (serve_all router_out_of_order three_requests)) =
        [''Request out of order: GET /bar'', ''Request out of order: PUT /foo'']
   \<and> errors (run (fst (serve_all router_out_of_order three_requests))
        [DoServeHTTP NewRecorder (request ''GET'' ''/foo''),
         DoRegisterResp ''GET'' ''/baz'' 200 [],
         DoAssertVisited []]) =
        [''Request out of order: GET /bar'', ''Request out of order: PUT /foo'',
         ''Unexpected request: GET /foo'', ''Unvisited route: GET /baz'']"
proof -
  let ?r = "fst (serve_all router_out_of_order three_requests)"
  let ?xs = "[DoServeHTTP NewRecorder (request ''GET'' ''/foo''),
              DoRegisterResp ''GET'' ''/baz'' 200 [], DoAssertVisited []]"
  have run: "run ?r ?xs =
    \<lparr>routes =
      [\<lparr>method_name = ''GET'', path = ''/foo'',
        handler = (\<lambda>w req. Fprintln (WriteHeader 200 w) []), visited = True\<rparr>,
       \<lparr>method_name = ''PUT'', path = ''/foo'',
        handler = (\<lambda>w req. Fprintln (WriteHeader 202 w) []), visited = True\<rparr>,
       \<lparr>method_name = ''GET'', path = ''/bar'',
        handler = (\<lambda>w req. Fprintln (WriteHeader 201 w) []), visited = True\<rparr>,
       \<lparr>method_name = ''GET'', path = ''/baz'',
        handler = (\<lambda>w req. Fprintln (WriteHeader 200 w) []), visited = False\<rparr>],
     index = 4,
     errors = [''Request out of order: GET /bar'', ''Request out of order: PUT /foo'',
         ''Unexpected request: GET /foo'', ''Unvisited route: GET /baz'']\<rparr>"
    by (simp add: serve_out_of_order run_def request_def ServeHTTP_def match_def
        addErrorf_def RegisterResp_def AssertVisited_def Let_def)
  show ?thesis
    using router_invariants [of ?r NewRecorder "request ''GET'' ''/foo''" ?xs]
    by (simp add: run) (simp add: serve_out_of_order)
qed

subsection \<open>The cursor stays in range\<close>

text \<open>
  The cursor cannot overflow. In every router reached from the empty one, each dispatch
  counted by the cursor has either marked a route visited or appended a diagnostic, so the
  cursor is at most the number of routes plus the number of diagnostics. Both lists are held
  in memory, which keeps their lengths far below the largest Go \<^verbatim>\<open>int\<close>.
\<close>

lemma visited_count_update:
  "k < length rs \<Longrightarrow> \<not> visited (rs ! k) \<Longrightarrow>
     length (filter visited (rs[k := (rs ! k)\<lparr>visited := True\<rparr>])) =
       Suc (length (filter visited rs))"
proof (induction rs arbitrary: k)
  case Nil
  then show ?case by simp
next
  case (Cons a rs)
  then show ?case by (cases k) simp_all
qed

lemma ServeHTTP_index_bound:
  assumes "index r \<le> int (length (filter visited (routes r))) + int (length (errors r))"
  shows "index (fst (ServeHTTP r w req))
           \<le> int (length (filter visited (routes (fst (ServeHTTP r w req)))))
             + int (length (errors (fst (ServeHTTP r w req))))"
proof (cases r "Method req" "Path (URL req)" rule: ServeHTTP_cases)
  case unmatched
  with assms show ?thesis by (simp add: ServeHTTP_unmatched)
next
  case (matched j)
  then have "j < length (routes r)" "\<not> visited (routes r ! j)"
    by (simp_all add: first_match_def matches_def)
  then have "length (filter visited ((routes r)[j := (routes r ! j)\<lparr>visited := True\<rparr>])) =
      Suc (length (filter visited (routes r)))"
    by (rule visited_count_update)
  with assms show ?thesis by (simp add: ServeHTTP_matched [OF matched])
qed

lemma step_index_bound:
  assumes "index r \<le> int (length (filter visited (routes r))) + int (length (errors r))"
  shows "index (step r x)
           \<le> int (length (filter visited (routes (step r x)))) + int (length (errors (step r x)))"
proof (cases x)
  case (DoServeHTTP w req)
  with assms show ?thesis by (simp add: ServeHTTP_index_bound)
qed (use assms in \<open>simp_all add: RegisterFunc_def RegisterResp_def AssertVisited_eq\<close>)

lemma run_index_bound:
  assumes "index r \<le> int (length (filter visited (routes r))) + int (length (errors r))"
  shows "index (run r xs)
           \<le> int (length (filter visited (routes (run r xs)))) + int (length (errors (run r xs)))"
  using assms
proof (induction xs arbitrary: r)
  case Nil
  then show ?case by (simp add: run_def)
next
  case (Cons x xs)
  from Cons.prems have "index (step r x)
      \<le> int (length (filter visited (routes (step r x)))) + int (length (errors (step r x)))"
    by (rule step_index_bound)
  then show ?case unfolding run_Cons by (rule Cons.IH)
qed

lemma index_bounded:
  "0 \<le> index (run Router0 xs) \<and>
   index (run Router0 xs)
     \<le> int (length (routes (run Router0 xs))) + int (length (errors (run Router0 xs)))"
proof -
  let ?r = "run Router0 xs"
  have bound: "index ?r \<le> int (length (filter visited (routes ?r))) + int (length (errors ?r))"
    by (rule run_index_bound) (simp add: Router0_def)
  have le: "int (length (filter visited (routes ?r))) \<le> int (length (routes ?r))"
    by simp
  have idx: "index ?r = int (length (filter is_dispatch xs))"
    using run_index [of Router0 xs] by (simp add: Router0_def)
  from bound le idx show ?thesis by linarith
qed

subsection \<open>The order of matching\<close>

lemma fifo_ordered_Nil: "fifo_ordered []"
  by (simp add: fifo_ordered_def)

lemma fifo_ordered_append:
  assumes "fifo_ordered rs" and "\<not> visited rte"
  shows "fifo_ordered (rs @ [rte])"
  unfolding fifo_ordered_def
proof (intro allI impI)
  fix j i
  assume j: "j < length (rs @ [rte])" and i: "i < j"
    and same: "route_key ((rs @ [rte]) ! i) = route_key ((rs @ [rte]) ! j)
                 \<and> visited ((rs @ [rte]) ! j)"
  from same assms(2) have "j \<noteq> length rs" by auto
  with j have "j < length rs" by simp
  with i same assms(1) show "visited ((rs @ [rte]) ! i)"
    by (simp add: fifo_ordered_def nth_append)
qed

lemma fifo_ordered_visit:
  assumes "fifo_ordered rs" and "first_match rs m p k"
  shows "fifo_ordered (rs[k := (rs ! k)\<lparr>visited := True\<rparr>])"
  unfolding fifo_ordered_def
proof (intro allI impI)
  let ?rs = "rs[k := (rs ! k)\<lparr>visited := True\<rparr>]"
  fix j i
  assume j: "j < length ?rs" and i: "i < j"
    and same: "route_key (?rs ! i) = route_key (?rs ! j) \<and> visited (?rs ! j)"
  from assms(2) have k: "k < length rs" "matches (rs ! k) m p"
    and before: "\<forall>l<k. \<not> matches (rs ! l) m p"
    by (simp_all add: first_match_def)
  have key: "route_key (?rs ! n) = route_key (rs ! n)" if "n < length rs" for n
    using that by (cases "n = k") (simp_all add: route_key_def)
  from j i have lens: "j < length rs" "i < length rs" by simp_all
  from same key lens have keys: "route_key (rs ! i) = route_key (rs ! j)" by simp
  have "visited (rs ! i) \<or> i = k"
  proof (cases "j = k")
    case True
    with i before have "\<not> matches (rs ! i) m p" by simp
    moreover from True keys k have "route_key (rs ! i) = (m, p)"
      by (simp add: matches_def route_key_def)
    ultimately show ?thesis by (simp add: matches_def route_key_def)
  next
    case False
    with same lens k have "visited (rs ! j)" by (simp add: nth_list_update)
    with assms(1) lens i keys show ?thesis by (auto simp: fifo_ordered_def)
  qed
  with lens k show "visited (?rs ! i)" by (auto simp: nth_list_update)
qed

lemma ServeHTTP_fifo:
  "fifo_ordered (routes r) \<Longrightarrow> fifo_ordered (routes (fst (ServeHTTP r w req)))"
  by (cases r "Method req" "Path (URL req)" rule: ServeHTTP_cases)
     (simp_all add: ServeHTTP_matched ServeHTTP_unmatched fifo_ordered_visit)

lemma step_fifo: "fifo_ordered (routes r) \<Longrightarrow> fifo_ordered (routes (step r x))"
  by (cases x)
     (simp_all add: ServeHTTP_fifo RegisterFunc_def RegisterResp_def AssertVisited_eq
        fifo_ordered_append)

lemma run_fifo: "fifo_ordered (routes r) \<Longrightarrow> fifo_ordered (routes (run r xs))"
  by (induction xs arbitrary: r) (simp_all add: run_def step_fifo)

lemma match_Some_iff: "(fst (match r m p) = Some j) = first_match (routes r) m p j"
proof (cases r m p rule: ServeHTTP_cases)
  case unmatched
  then have "\<not> first_match (routes r) m p j"
    by (auto simp: first_match_def)
  with unmatched show ?thesis by (simp add: match_none)
next
  case (matched k)
  then show ?thesis
    using first_match_unique [of "routes r" m p j k] by (auto simp: match_first)
qed

lemma match_None_iff:
  "(fst (match r m p) = None) = (\<forall>rte\<in>set (routes r). \<not> matches rte m p)"
proof (cases r m p rule: ServeHTTP_cases)
  case unmatched
  then show ?thesis by (simp add: match_none)
next
  case (matched k)
  then have "\<exists>rte\<in>set (routes r). matches rte m p"
    by (auto simp: first_match_def)
  with matched show ?thesis by (auto simp: match_first)
qed

lemma router_duplicates_eq:
  "router_duplicates =
    \<lparr>routes =
      [\<lparr>method_name = ''GET'', path = ''/foo'',
        handler = (\<lambda>w req. Fprintln (WriteHeader 200 w) ''first''), visited = False\<rparr>,
       \<lparr>method_name = ''GET'', path = ''/bar'',
        handler = (\<lambda>w req. Fprintln (WriteHeader 201 w) []), visited = False\<rparr>,
       \<lparr>method_name = ''GET'', path = ''/foo'',
        handler = (\<lambda>w req. Fprintln (WriteHeader 202 w) ''second''), visited = False\<rparr>],
     index = 0, errors = []\<rparr>"
  by (simp add: router_duplicates_def RegisterResp_def Router0_def)

text \<open>
  Claim C6. \<^verbatim>\<open>match\<close> returns position \<open>j\<close> exactly when \<open>j\<close> is the first route, in
  registration order, that is unvisited and carries the method and path asked for; it
  returns no route exactly when there is none; and its flag says whether that position is
  the cursor. A dispatch marks exactly that first route visited and runs its handler.
  Hence, in every router reached from the empty one by calls of the exported methods, of
  two routes with the same method and path the later one is visited only if the earlier one
  is: routes with the same key are consumed in the order of their registration.
\<close>

theorem match_first_unvisited_fifo:
  "(fst (match r m p) = Some j) = first_match (routes r) m p j
   \<and> (fst (match r m p) = None) = (\<forall>rte\<in>set (routes r). \<not> matches rte m p)
   \<and> snd (match r m p) = (\<exists>i. fst (match r m p) = Some i \<and> int i = index r)
   \<and> (first_match (routes r) (Method req) (Path (URL req)) j \<longrightarrow>
        routes (fst (ServeHTTP r w req)) = (routes r)[j := (routes r ! j)\<lparr>visited := True\<rparr>]
        \<and> snd (ServeHTTP r w req) = handler (routes r ! j) w req)
   \<and> fifo_ordered (routes (run Router0 xs))"
proof -
  have "snd (match r m p) = (\<exists>i. fst (match r m p) = Some i \<and> int i = index r)"
    by (cases r m p rule: ServeHTTP_cases) (simp_all add: match_none match_first)
  moreover have "fifo_ordered (routes (run Router0 xs))"
    by (rule run_fifo) (simp add: Router0_def fifo_ordered_Nil)
  ultimately show ?thesis
    by (simp add: match_Some_iff match_None_iff ServeHTTP_matched)
qed

theorem match_first_unvisited_fifo_witness:
  "first_match (routes router_duplicates) ''GET'' ''/foo'' 0
   \<and> fst (match router_duplicates ''GET'' ''/foo'') = Some 0
   \<and> map visited (routes (fst (ServeHTTP router_duplicates NewRecorder
        (request ''GET'' ''/foo'')))) = [True, False, False]
   \<and> Body (snd (ServeHTTP router_duplicates NewRecorder (request ''GET'' ''/foo''))) =
        ''first'' @ [CHR 0x0A]
   \<and> fst (match (fst (ServeHTTP router_duplicates NewRecorder (request ''GET'' ''/foo'')))
        ''GET'' ''/foo'') = Some 2
   \<and> fifo_ordered (routes (run Router0
        [DoRegisterResp ''GET'' ''/foo'' 200 ''first'',
         DoRegisterResp ''GET'' ''/bar'' 201 [],
         DoRegisterResp ''GET'' ''/foo'' 202 ''second'',
         DoServeHTTP NewRecorder (request ''GET'' ''/foo'')]))"
proof -
  let ?req = "request ''GET'' ''/foo''"
  let ?xs = "[DoRegisterResp ''GET'' ''/foo'' 200 ''first'',
         DoRegisterResp ''GET'' ''/bar'' 201 [],
         DoRegisterResp ''GET'' ''/foo'' 202 ''second'',
         DoServeHTTP NewRecorder (request ''GET'' ''/foo'')]"
  have h: "first_match (routes router_duplicates) ''GET'' ''/foo'' 0"
    by (simp add: router_duplicates_eq first_match_def matches_def)
  have m2: "fst (match (fst (ServeHTTP router_duplicates NewRecorder ?req)) ''GET'' ''/foo'')
      = Some 2"
    by (simp add: router_duplicates_eq request_def ServeHTTP_def match_def execute_def)
  show ?thesis
    using h m2 match_first_unvisited_fifo [of router_duplicates "''GET''" "''/foo''" 0 ?req
        NewRecorder ?xs]
    by (simp add: request_def)
       (simp add: router_duplicates_eq NewRecorder_def Fprintln_def WriteHeader_def Write_def)
qed

subsection \<open>Requests in the registered order\<close>

lemma register_unvisited:
  "\<exists>u. routes (register r reg) = routes r @ [u] \<and> \<not> visited u \<and> route_key u = reg_key reg
       \<and> index (register r reg) = index r \<and> errors (register r reg) = errors r"
  by (cases reg) (simp_all add: RegisterFunc_def RegisterResp_def route_key_def)

lemma register_all_Cons: "register_all r (reg # regs) = register_all (register r reg) regs"
  by (simp add: register_all_def)

lemma register_all_unvisited:
  "\<exists>us. routes (register_all r regs) = routes r @ us \<and> (\<forall>u\<in>set us. \<not> visited u)
        \<and> map route_key us = map reg_key regs
        \<and> index (register_all r regs) = index r \<and> errors (register_all r regs) = errors r"
proof (induction regs arbitrary: r)
  case Nil
  show ?case by (simp add: register_all_def)
next
  case (Cons reg regs)
  obtain u where u: "routes (register r reg) = routes r @ [u]" "\<not> visited u"
      "route_key u = reg_key reg" "index (register r reg) = index r"
      "errors (register r reg) = errors r"
    using register_unvisited [of r reg] by blast
  obtain us where us: "routes (register_all (register r reg) regs) = routes (register r reg) @ us"
      "\<forall>u\<in>set us. \<not> visited u" "map route_key us = map reg_key regs"
      "index (register_all (register r reg) regs) = index (register r reg)"
      "errors (register_all (register r reg) regs) = errors (register r reg)"
    using Cons.IH [of "register r reg"] by blast
  have "routes (register_all r (reg # regs)) = routes r @ (u # us)"
    by (simp add: register_all_Cons us(1) u(1))
  moreover have "\<forall>x\<in>set (u # us). \<not> visited x"
    using u(2) us(2) by simp
  moreover have "map route_key (u # us) = map reg_key (reg # regs)"
    using u(3) us(3) by simp
  moreover have "index (register_all r (reg # regs)) = index r"
    by (simp add: register_all_Cons us(4) u(4))
  moreover have "errors (register_all r (reg # regs)) = errors r"
    by (simp add: register_all_Cons us(5) u(5))
  ultimately show ?case by blast
qed

lemma first_match_after_visited:
  assumes "\<forall>v\<in>set vs. visited v" and "\<not> visited u" and "route_key u = (m, p)"
  shows "first_match (vs @ u # us) m p (length vs)"
  using assms by (auto simp: first_match_def matches_def route_key_def nth_append)

lemma serve_in_order:
  assumes "routes r = vs @ us"
    and "\<forall>v\<in>set vs. visited v"
    and "\<forall>u\<in>set us. \<not> visited u"
    and "index r = int (length vs)"
    and "map (\<lambda>(w, req). req_key req) ds = map route_key us"
  shows "errors (fst (serve_all r ds)) = errors r
    \<and> index (fst (serve_all r ds)) = int (length (routes r))
    \<and> map route_key (routes (fst (serve_all r ds))) = map route_key (routes r)
    \<and> (\<forall>rte\<in>set (routes (fst (serve_all r ds))). visited rte)"
  using assms
proof (induction ds arbitrary: r vs us)
  case Nil
  then show ?case by simp
next
  case (Cons d ds)
  obtain w req where d: "d = (w, req)" by (cases d)
  from Cons.prems(5) d obtain u us' where us: "us = u # us'"
      and key: "route_key u = (Method req, Path (URL req))"
      and rest: "map (\<lambda>(w, req). req_key req) ds = map route_key us'"
    by (cases us) (auto simp: req_key_def)
  let ?u = "u\<lparr>visited := True\<rparr>"
  let ?r1 = "fst (ServeHTTP r w req)"
  from Cons.prems(2,3) us key
  have "first_match (vs @ u # us') (Method req) (Path (URL req)) (length vs)"
    by (intro first_match_after_visited) simp_all
  with Cons.prems(1) us
  have fm: "first_match (routes r) (Method req) (Path (URL req)) (length vs)" by simp
  have r1: "routes ?r1 = (vs @ [?u]) @ us'" "index ?r1 = int (length (vs @ [?u]))"
      "errors ?r1 = errors r"
    using Cons.prems(1,4) us by (simp_all add: ServeHTTP_matched [OF fm])
  have "\<forall>v\<in>set (vs @ [?u]). visited v"
    using Cons.prems(2) by simp
  moreover have "\<forall>x\<in>set us'. \<not> visited x"
    using Cons.prems(3) us by simp
  ultimately have IH: "errors (fst (serve_all ?r1 ds)) = errors ?r1
    \<and> index (fst (serve_all ?r1 ds)) = int (length (routes ?r1))
    \<and> map route_key (routes (fst (serve_all ?r1 ds))) = map route_key (routes ?r1)
    \<and> (\<forall>rte\<in>set (routes (fst (serve_all ?r1 ds))). visited rte)"
    using Cons.IH [OF r1(1) _ _ r1(2) rest] by blast
  have unfold: "fst (serve_all r (d # ds)) = fst (serve_all ?r1 ds)"
    by (simp add: d split: prod.splits)
  have "map route_key (routes ?r1) = map route_key (routes r)"
    using Cons.prems(1) us r1(1) by (simp add: route_key_def)
  moreover have "length (routes ?r1) = length (routes r)"
    using Cons.prems(1) us r1(1) by simp
  ultimately show ?case
    using IH r1(3) by (simp add: unfold)
qed

text \<open>
  Claim C1. Start from the empty router, make any sequence of registrations, and then
  dispatch requests whose methods and paths are exactly the registered ones, in the order of
  registration (with arbitrary writers). Then no diagnostic has been recorded,
  \<^verbatim>\<open>AssertVisited\<close> returns true, records and reports nothing, and every registered route
  is visited.
\<close>

theorem in_order_run_succeeds:
  assumes "map (\<lambda>(w, req). req_key req) ds = map reg_key regs"
  shows "let r0 = register_all Router0 regs;
             (r1, ws) = serve_all r0 ds;
             (r2, t', ok) = AssertVisited r1 t
         in ok \<and> errors r1 = [] \<and> errors r2 = []
            \<and> (\<forall>rte\<in>set (routes r2). visited rte)
            \<and> map route_key (routes r2) = map reg_key regs
            \<and> t' = t"
proof -
  let ?r0 = "register_all Router0 regs"
  let ?r1 = "fst (serve_all ?r0 ds)"
  obtain us where us: "routes ?r0 = us" "\<forall>u\<in>set us. \<not> visited u"
      "map route_key us = map reg_key regs" "index ?r0 = 0" "errors ?r0 = []"
    using register_all_unvisited [of Router0 regs] by (auto simp: Router0_def)
  have "routes ?r0 = [] @ us" "\<forall>v\<in>set []. visited v" "index ?r0 = int (length [])"
    using us by simp_all
  with us(2) assms us(3)
  have "errors ?r1 = errors ?r0 \<and> index ?r1 = int (length (routes ?r0))
    \<and> map route_key (routes ?r1) = map route_key (routes ?r0)
    \<and> (\<forall>rte\<in>set (routes ?r1). visited rte)"
    by (intro serve_in_order [where vs = "[]" and us = us]) simp_all
  with us show ?thesis
    by (simp add: AssertVisited_eq Let_def split: prod.splits) (auto simp: filter_empty_conv)
qed

theorem in_order_run_succeeds_witness:
  "map (\<lambda>(w, req). req_key req) three_requests =
     map reg_key [Resp ''GET'' ''/foo'' 200 [], Resp ''GET'' ''/bar'' 201 [],
                  Resp ''PUT'' ''/foo'' 202 []]
   \<and> snd (snd (AssertVisited (fst (serve_all (register_all Router0
        [Resp ''GET'' ''/foo'' 200 [], Resp ''GET'' ''/bar'' 201 [],
         Resp ''PUT'' ''/foo'' 202 []]) three_requests)) []))
   \<and> errors (fst (serve_all (register_all Router0
        [Resp ''GET'' ''/foo'' 200 [], Resp ''GET'' ''/bar'' 201 [],
         Resp ''PUT'' ''/foo'' 202 []]) three_requests)) = []
   \<and> map visited (routes (fst (serve_all (register_all Router0
        [Resp ''GET'' ''/foo'' 200 [], Resp ''GET'' ''/bar'' 201 [],
         Resp ''PUT'' ''/foo'' 202 []]) three_requests))) = [True, True, True]"
proof -
  let ?regs = "[Resp ''GET'' ''/foo'' 200 [], Resp ''GET'' ''/bar'' 201 [],
                Resp ''PUT'' ''/foo'' 202 []]"
  have h: "map (\<lambda>(w, req). req_key req) three_requests = map reg_key ?regs"
    by (simp add: three_requests_def req_key_def request_def)
  have regs: "register_all Router0 ?regs = router_success"
    by (simp add: register_all_def router_success_def)
  show ?thesis
    using h in_order_run_succeeds [OF h, of "[]"]
    by (simp add: regs serve_success Let_def split: prod.splits)
qed

end
